theory Spec2Isabelle
  imports Main "HOL-Library.Word"
begin

section \<open>Sequence number statistics (SequenceNumberStats.cpp)\<close>

text \<open>
  A sequence number is a \<open>quint16\<close>: a 16-bit word whose addition wraps. A \<open>QUuid\<close> is a
  128-bit value; the default-constructed one is the null UUID, all zero.
  The calls to \<open>qDebug()\<close> only print; the flag \<open>wantExtraDebugging\<close> selects more
  printing and nothing else, so neither is part of the model.
\<close>

type_synonym quint16 = "16 word"
type_synonym QUuid = "128 word"

text \<open>
  Modelled from the spec: the declared type of the seven counters. The class declaration
  (SequenceNumberStats.h) is not among the sources; the spec calls the counters integers
  that are never negative. They are unbounded integers here, so that \<open>_numLost--\<close> is a
  real subtraction and being non-negative is something to prove.
\<close>

record SequenceNumberStats =
  lastReceived :: quint16
  missingSet :: "quint16 set"
  numReceived :: int
  numUnreasonable :: int
  numEarly :: int
  numLate :: int
  numLost :: int
  numRecovered :: int
  numDuplicate :: int
  lastSenderUUID :: QUuid

text \<open>The constructor: \<open>_lastReceived\<close> starts at the largest \<open>quint16\<close>.\<close>

definition SequenceNumberStats_new :: SequenceNumberStats where
  "SequenceNumberStats_new =
     \<lparr>lastReceived = 65535, missingSet = {}, numReceived = 0, numUnreasonable = 0,
      numEarly = 0, numLate = 0, numLost = 0, numRecovered = 0, numDuplicate = 0,
      lastSenderUUID = 0\<rparr>"

definition reset :: "SequenceNumberStats \<Rightarrow> SequenceNumberStats" where
  "reset s =
     s\<lparr>missingSet := {}, numReceived := 0, numUnreasonable := 0, numEarly := 0,
       numLate := 0, numLost := 0, numRecovered := 0, numDuplicate := 0\<rparr>"

definition UINT16_RANGE :: int where
  "UINT16_RANGE = 65535 + 1"

text \<open>
  The constant \<open>MAX_REASONABLE_SEQUENCE_GAP\<close> is declared in the missing header. Every
  function that reads it takes it as its first argument \<open>maxGap\<close>.
\<close>

text \<open>
  The two loops of \<open>pruneMissingSet\<close> walk the set and erase each element for which the
  test holds; what is left are the elements for which it fails.
\<close>

definition eraseWhere :: "(quint16 \<Rightarrow> bool) \<Rightarrow> quint16 set \<Rightarrow> quint16 set" where
  "eraseWhere P S = Set.filter (\<lambda>missing. \<not> P missing) S"

definition pruneMissingSet :: "int \<Rightarrow> SequenceNumberStats \<Rightarrow> SequenceNumberStats" where
  "pruneMissingSet maxGap s =
     (let cutoff = uint (lastReceived s) - maxGap in
      if cutoff \<ge> 0 then
        let nonRolloverCutoff = (word_of_int cutoff :: quint16) in
        s\<lparr>missingSet :=
            eraseWhere (\<lambda>missing. missing > lastReceived s \<or> missing < nonRolloverCutoff)
              (missingSet s)\<rparr>
      else
        let rolloverCutoff = (word_of_int (cutoff + UINT16_RANGE) :: quint16) in
        s\<lparr>missingSet :=
            eraseWhere (\<lambda>missing. missing > lastReceived s \<and> missing < rolloverCutoff)
              (missingSet s)\<rparr>)"

text \<open>
  The loop \<open>for (int missingInt = expectedInt; missingInt < incomingInt; missingInt++)\<close>
  that inserts the skipped numbers.
\<close>

function insertMissing :: "int \<Rightarrow> int \<Rightarrow> quint16 set \<Rightarrow> quint16 set" where
  "insertMissing missingInt incomingInt S =
     (if missingInt < incomingInt
      then insertMissing (missingInt + 1) incomingInt
             (insert (word_of_int (if missingInt < 0 then missingInt + UINT16_RANGE
                                   else missingInt)) S)
      else S)"
  by pat_completeness auto
termination
  by (relation "measure (\<lambda>(missingInt, incomingInt, S). nat (incomingInt - missingInt))") auto

declare insertMissing.simps [simp del]

text \<open>
  Lines 87 to 130: once a rollover has been corrected for, the two numbers are compared
  as integers and the packet is early or late.
\<close>

definition earlyOrLate ::
  "int \<Rightarrow> quint16 \<Rightarrow> int \<Rightarrow> int \<Rightarrow> SequenceNumberStats \<Rightarrow> SequenceNumberStats" where
  "earlyOrLate maxGap incoming incomingInt expectedInt s =
     (if incomingInt > expectedInt then
        let s1 = s\<lparr>numEarly := numEarly s + 1,
                   numLost := numLost s + (incomingInt - expectedInt),
                   lastReceived := incoming\<rparr>;
            s2 = s1\<lparr>missingSet := insertMissing expectedInt incomingInt (missingSet s1)\<rparr>
        in if int (card (missingSet s2)) > maxGap then pruneMissingSet maxGap s2 else s2
      else
        let s1 = s\<lparr>numLate := numLate s + 1\<rparr> in
        if incoming \<in> missingSet s1
        then s1\<lparr>missingSet := missingSet s1 - {incoming},
                numLost := numLost s1 - 1,
                numRecovered := numRecovered s1 + 1\<rparr>
        else s1\<lparr>numDuplicate := numDuplicate s1 + 1\<rparr>)"

text \<open>Lines 45 to 51: a new sender resets the statistics and is remembered.\<close>

definition senderCheck :: "QUuid \<Rightarrow> SequenceNumberStats \<Rightarrow> SequenceNumberStats" where
  "senderCheck senderUUID s =
     (if senderUUID \<noteq> lastSenderUUID s
      then (reset s)\<lparr>lastSenderUUID := senderUUID\<rparr>
      else s)"

text \<open>Lines 53 to 131, on the state left by the sender check.\<close>

definition classify :: "int \<Rightarrow> quint16 \<Rightarrow> SequenceNumberStats \<Rightarrow> SequenceNumberStats" where
  "classify maxGap incoming s0 =
     (let expected = (if numReceived s0 > 0 then lastReceived s0 + 1 else incoming);
          s = s0\<lparr>numReceived := numReceived s0 + 1\<rparr>
      in if incoming = expected then s\<lparr>lastReceived := incoming\<rparr>
         else
           let incomingInt = uint incoming;
               expectedInt = uint expected;
               absGap = \<bar>incomingInt - expectedInt\<bar>
           in if absGap \<ge> UINT16_RANGE - maxGap then
                (if incomingInt > expectedInt
                 then earlyOrLate maxGap incoming (incomingInt - UINT16_RANGE) expectedInt s
                 else earlyOrLate maxGap incoming incomingInt (expectedInt - UINT16_RANGE) s)
              else if absGap > maxGap then s\<lparr>numUnreasonable := numUnreasonable s + 1\<rparr>
              else earlyOrLate maxGap incoming incomingInt expectedInt s)"

definition sequenceNumberReceived ::
  "int \<Rightarrow> quint16 \<Rightarrow> QUuid \<Rightarrow> SequenceNumberStats \<Rightarrow> SequenceNumberStats" where
  "sequenceNumberReceived maxGap incoming senderUUID s =
     classify maxGap incoming (senderCheck senderUUID s)"

text \<open>A run of calls, oldest first, each with its sequence number and its sender.\<close>

fun receiveAll ::
  "int \<Rightarrow> SequenceNumberStats \<Rightarrow> (quint16 \<times> QUuid) list \<Rightarrow> SequenceNumberStats" where
  "receiveAll maxGap s [] = s"
| "receiveAll maxGap s ((incoming, senderUUID) # rest) =
     receiveAll maxGap (sequenceNumberReceived maxGap incoming senderUUID s) rest"

text \<open>
  The invariant of the statistics: no counter is negative, and every number still in the
  missing set has been counted as lost.
\<close>

definition statsInv :: "SequenceNumberStats \<Rightarrow> bool" where
  "statsInv s =
     (0 \<le> numReceived s \<and> 0 \<le> numUnreasonable s \<and> 0 \<le> numEarly s \<and> 0 \<le> numLate s \<and>
      0 \<le> numRecovered s \<and> 0 \<le> numDuplicate s \<and> int (card (missingSet s)) \<le> numLost s)"

text \<open>
  The spec's description of the entries that pruning discards, for comparison with the
  two loops of \<open>pruneMissingSet\<close>: with the cutoff \<open>lastReceived - maxGap\<close> taken as a plain
  integer, an entry goes when it is greater than \<open>lastReceived\<close> or less than the cutoff
  (cutoff not negative), or when it lies strictly between \<open>lastReceived\<close> and the cutoff
  plus 65536 (cutoff negative).
\<close>

definition tooOld_spec :: "int \<Rightarrow> quint16 \<Rightarrow> quint16 \<Rightarrow> bool" where
  "tooOld_spec maxGap lastRcv missing =
     (let cutoff = uint lastRcv - maxGap in
      if cutoff \<ge> 0
      then uint missing > uint lastRcv \<or> uint missing < cutoff
      else uint lastRcv < uint missing \<and> uint missing < cutoff + 65536)"

section \<open>Sent packet history (SentPacketHistory.h, SentPacketHistory.cpp)\<close>

text \<open>
  A \<open>QByteArray\<close> is a string of bytes; the default-constructed one is empty. The circular
  buffer is a \<open>QVector<QByteArray>\<close>: a list whose length is the capacity. \<open>QVector\<close> asserts
  that a size is not negative and that an index given to \<open>operator[]\<close> or \<open>at\<close> is inside
  the vector; a failed assertion is an error value here.
\<close>

type_synonym QByteArray = string

datatype error = NegativeSize | IndexOutOfRange

record SentPacketHistory =
  sentPackets :: "QByteArray list"
  newestPacketAt :: int
  numExistingPackets :: int
  newestSequenceNumber :: quint16

definition SentPacketHistory_new :: "int \<Rightarrow> error + SentPacketHistory" where
  "SentPacketHistory_new vsize =
     (if vsize < 0 then Inl NegativeSize
      else Inr \<lparr>sentPackets = replicate (nat vsize) [], newestPacketAt = 0,
                numExistingPackets = 0, newestSequenceNumber = 65535\<rparr>)"

text \<open>
  \<open>packetSent\<close>: a sequence number other than the expected one is only reported with
  \<open>qDebug()\<close>; the call goes on with the number it was given.
\<close>

definition packetSent ::
  "quint16 \<Rightarrow> QByteArray \<Rightarrow> SentPacketHistory \<Rightarrow> error + SentPacketHistory" where
  "packetSent sequenceNumber packet h =
     (let vsize = int (length (sentPackets h));
          at = (if newestPacketAt h = vsize - 1 then 0 else newestPacketAt h + 1)
      in if 0 \<le> at \<and> at < vsize
         then Inr (h\<lparr>newestSequenceNumber := sequenceNumber,
                     newestPacketAt := at,
                     sentPackets := (sentPackets h)[nat at := packet],
                     numExistingPackets :=
                       (if numExistingPackets h < vsize then numExistingPackets h + 1
                        else numExistingPackets h)\<rparr>)
         else Inl IndexOutOfRange)"

text \<open>\<open>getPacket\<close>: \<open>Inr None\<close> is the \<open>NULL\<close> it returns for a packet it no longer has.\<close>

definition getPacket :: "quint16 \<Rightarrow> SentPacketHistory \<Rightarrow> error + QByteArray option" where
  "getPacket sequenceNumber h =
     (let vsize = int (length (sentPackets h));
          seqDiff0 = uint (newestSequenceNumber h) - uint sequenceNumber;
          seqDiff = (if seqDiff0 < 0 then seqDiff0 + UINT16_RANGE else seqDiff0)
      in if seqDiff \<ge> numExistingPackets h then Inr None
         else
           let packetAt0 = newestPacketAt h - seqDiff;
               packetAt = (if packetAt0 < 0 then packetAt0 + vsize else packetAt0)
           in if 0 \<le> packetAt \<and> packetAt < vsize
              then Inr (Some (sentPackets h ! nat packetAt))
              else Inl IndexOutOfRange)"

text \<open>A run of \<open>packetSent\<close> calls, oldest first; the first failed assertion ends it.\<close>

fun packetsSent ::
  "SentPacketHistory \<Rightarrow> (quint16 \<times> QByteArray) list \<Rightarrow> error + SentPacketHistory" where
  "packetsSent h [] = Inr h"
| "packetsSent h ((sequenceNumber, packet) # rest) =
     (case packetSent sequenceNumber packet h of
        Inl e \<Rightarrow> Inl e
      | Inr h' \<Rightarrow> packetsSent h' rest)"

text \<open>A history of the given capacity after a run of \<open>packetSent\<close> calls.\<close>

definition historyAfter :: "int \<Rightarrow> (quint16 \<times> QByteArray) list \<Rightarrow> error + SentPacketHistory" where
  "historyAfter vsize calls =
     (case SentPacketHistory_new vsize of
        Inl e \<Rightarrow> Inl e
      | Inr h \<Rightarrow> packetsSent h calls)"

text \<open>
  Payloads numbered consecutively: the first gets the given number, each later one the
  successor (in 16 bits) of the number before it.
\<close>

fun numbered :: "quint16 \<Rightarrow> QByteArray list \<Rightarrow> (quint16 \<times> QByteArray) list" where
  "numbered first [] = []"
| "numbered first (p # ps) = (first, p) # numbered (first + 1) ps"

text \<open>
  The spec's ring distance, \<open>newest - older\<close> computed modulo 65536, and its ring slot a
  number of steps back from the newest slot, for comparison with \<open>getPacket\<close>.
\<close>

definition ringDistance_spec :: "quint16 \<Rightarrow> quint16 \<Rightarrow> int" where
  "ringDistance_spec newest older = uint (newest - older)"

definition slotBack_spec :: "SentPacketHistory \<Rightarrow> int \<Rightarrow> nat" where
  "slotBack_spec h steps = nat ((newestPacketAt h - steps) mod int (length (sentPackets h)))"

text \<open>
  The invariant of the ring after the payloads \<open>ps\<close> have been recorded, oldest first,
  in a history of capacity \<open>C\<close>: the newest slot is the number of payloads modulo \<open>C\<close>, the
  count is that number capped at \<open>C\<close>, and the slot \<open>j\<close> steps back holds the payload \<open>j\<close>
  places before the last one, for each \<open>j\<close> below the count.
\<close>

definition ringInv :: "int \<Rightarrow> QByteArray list \<Rightarrow> SentPacketHistory \<Rightarrow> bool" where
  "ringInv C ps h =
     (int (length (sentPackets h)) = C \<and>
      newestPacketAt h = int (length ps) mod C \<and>
      numExistingPackets h = min (int (length ps)) C \<and>
      (\<forall>j. j < length ps \<and> int j < C \<longrightarrow>
         sentPackets h ! nat ((int (length ps) - int j) mod C) = ps ! (length ps - 1 - j)))"

text \<open>
  What holds of the indices at every state of a history: the count is between 0 and the
  capacity, and once something has been recorded the newest slot is inside the vector.
\<close>

definition historyWf :: "SentPacketHistory \<Rightarrow> bool" where
  "historyWf h =
     (0 \<le> numExistingPackets h \<and> numExistingPackets h \<le> int (length (sentPackets h)) \<and>
      (numExistingPackets h = 0 \<or>
       (0 \<le> newestPacketAt h \<and> newestPacketAt h < int (length (sentPackets h)))))"

section \<open>The on-time packet\<close>

text \<open>
  C6. For every tracker state and every value of the gap constant, a call with the stored
  sender and the successor of \<open>lastReceived\<close> adds one to \<open>numReceived\<close>, makes the incoming
  number the new \<open>lastReceived\<close>, and changes no other counter, nor the missing set, nor the
  stored sender.
\<close>

theorem on_time_frame:
  "sequenceNumberReceived maxGap (lastReceived s + 1) (lastSenderUUID s) s =
     s\<lparr>numReceived := numReceived s + 1, lastReceived := lastReceived s + 1\<rparr>"
  by (simp add: sequenceNumberReceived_def senderCheck_def classify_def)

section \<open>The unreasonable gap\<close>

text \<open>
  C3. For every tracker state with \<open>numReceived > 0\<close> and a call with the stored sender:
  when the incoming number is not the expected one, the distance between the two is below
  the threshold of the rollover correction, \<open>65536 - maxGap\<close>, and above \<open>maxGap\<close>, the call
  adds one to \<open>numReceived\<close> and one to \<open>numUnreasonable\<close> and leaves everything else as it
  was: \<open>lastReceived\<close>, the missing set, the other five counters and the sender.
\<close>

theorem unreasonable_discarded:
  assumes "numReceived s > 0"
    and "incoming \<noteq> lastReceived s + 1"
    and "\<not> (\<bar>uint incoming - uint (lastReceived s + 1)\<bar> \<ge> 65536 - maxGap)"
    and "\<bar>uint incoming - uint (lastReceived s + 1)\<bar> > maxGap"
  shows "sequenceNumberReceived maxGap incoming (lastSenderUUID s) s =
           s\<lparr>numReceived := numReceived s + 1, numUnreasonable := numUnreasonable s + 1\<rparr>"
  using assms
  by (simp add: sequenceNumberReceived_def senderCheck_def classify_def UINT16_RANGE_def Let_def)

theorem unreasonable_discarded_witness:
  "sequenceNumberReceived 1000 5000 7
     \<lparr>lastReceived = 10, missingSet = {4}, numReceived = 9, numUnreasonable = 0,
      numEarly = 1, numLate = 0, numLost = 1, numRecovered = 0, numDuplicate = 0,
      lastSenderUUID = 7\<rparr> =
     \<lparr>lastReceived = 10, missingSet = {4}, numReceived = 10, numUnreasonable = 1,
      numEarly = 1, numLate = 0, numLost = 1, numRecovered = 0, numDuplicate = 0,
      lastSenderUUID = 7\<rparr>"
  using unreasonable_discarded [of
      "\<lparr>lastReceived = 10, missingSet = {4}, numReceived = 9, numUnreasonable = 0,
        numEarly = 1, numLate = 0, numLost = 1, numRecovered = 0, numDuplicate = 0,
        lastSenderUUID = 7\<rparr>" 5000 1000]
  by simp

section \<open>A new sender\<close>

text \<open>
  C5, as the code has it. When the sender differs from the stored one, the sender check
  sets the seven counters to zero, empties the missing set and stores the new sender,
  whatever the state was; \<open>lastReceived\<close> keeps its value. With \<open>numReceived\<close> at zero the
  incoming number is then its own expected value, so the whole call ends with
  \<open>numReceived = 1\<close> and the incoming number as \<open>lastReceived\<close>.
\<close>

theorem sender_change_resets:
  assumes "senderUUID \<noteq> lastSenderUUID s"
  shows "senderCheck senderUUID s =
           \<lparr>lastReceived = lastReceived s, missingSet = {}, numReceived = 0,
            numUnreasonable = 0, numEarly = 0, numLate = 0, numLost = 0, numRecovered = 0,
            numDuplicate = 0, lastSenderUUID = senderUUID\<rparr>
       \<and> sequenceNumberReceived maxGap incoming senderUUID s =
           \<lparr>lastReceived = incoming, missingSet = {}, numReceived = 1,
            numUnreasonable = 0, numEarly = 0, numLate = 0, numLost = 0, numRecovered = 0,
            numDuplicate = 0, lastSenderUUID = senderUUID\<rparr>"
  using assms
  by (simp add: sequenceNumberReceived_def senderCheck_def classify_def reset_def)

theorem sender_change_resets_witness:
  "senderCheck 2
     \<lparr>lastReceived = 5, missingSet = {3, 4}, numReceived = 3, numUnreasonable = 0,
      numEarly = 1, numLate = 0, numLost = 2, numRecovered = 0, numDuplicate = 0,
      lastSenderUUID = 1\<rparr> =
     \<lparr>lastReceived = 5, missingSet = {}, numReceived = 0, numUnreasonable = 0,
      numEarly = 0, numLate = 0, numLost = 0, numRecovered = 0, numDuplicate = 0,
      lastSenderUUID = 2\<rparr>
   \<and> sequenceNumberReceived 1000 40 2
     \<lparr>lastReceived = 5, missingSet = {3, 4}, numReceived = 3, numUnreasonable = 0,
      numEarly = 1, numLate = 0, numLost = 2, numRecovered = 0, numDuplicate = 0,
      lastSenderUUID = 1\<rparr> =
     \<lparr>lastReceived = 40, missingSet = {}, numReceived = 1, numUnreasonable = 0,
      numEarly = 0, numLate = 0, numLost = 0, numRecovered = 0, numDuplicate = 0,
      lastSenderUUID = 2\<rparr>"
  using sender_change_resets [of 2
      "\<lparr>lastReceived = 5, missingSet = {3, 4}, numReceived = 3, numUnreasonable = 0,
        numEarly = 1, numLate = 0, numLost = 2, numRecovered = 0, numDuplicate = 0,
        lastSenderUUID = 1\<rparr>" 1000 40]
  by simp

text \<open>
  The claim as stated fails: after the sender check on a state whose \<open>lastReceived\<close> is 5,
  with a sender other than the stored one, \<open>lastReceived\<close> is still 5 and not 65535.
\<close>

theorem sender_change_lastReceived_counterexample:
  "(2 :: QUuid) \<noteq> lastSenderUUID
     \<lparr>lastReceived = 5, missingSet = {3, 4}, numReceived = 3, numUnreasonable = 0,
      numEarly = 1, numLate = 0, numLost = 2, numRecovered = 0, numDuplicate = 0,
      lastSenderUUID = 1\<rparr>
   \<and> lastReceived (senderCheck 2
     \<lparr>lastReceived = 5, missingSet = {3, 4}, numReceived = 3, numUnreasonable = 0,
      numEarly = 1, numLate = 0, numLost = 2, numRecovered = 0, numDuplicate = 0,
      lastSenderUUID = 1\<rparr>) \<noteq> 65535"
  by (simp add: senderCheck_def reset_def)

section \<open>Pruning the missing set\<close>

lemma uint_cast_id: "0 \<le> c \<Longrightarrow> c < 65536 \<Longrightarrow> uint (word_of_int c :: quint16) = c"
  by (simp add: uint_word_of_int)

text \<open>
  C7. With the gap constant between 0 and 65536, \<open>pruneMissingSet\<close> removes from the
  missing set exactly the entries the spec describes and keeps all others, and it changes
  nothing else in the state: no counter, in particular not \<open>numLost\<close>.
\<close>

theorem prune_removes_exactly:
  assumes "0 \<le> maxGap" and "maxGap \<le> 65536"
  shows "pruneMissingSet maxGap s =
           s\<lparr>missingSet := {m \<in> missingSet s. \<not> tooOld_spec maxGap (lastReceived s) m}\<rparr>"
proof -
  have b: "uint (lastReceived s) < 65536" using uint_lt2p [of "lastReceived s"] by simp
  have nn: "0 \<le> uint (lastReceived s)" by simp
  show ?thesis
  proof (cases "uint (lastReceived s) - maxGap \<ge> 0")
    case True
    have "uint (word_of_int (uint (lastReceived s) - maxGap) :: quint16) =
            uint (lastReceived s) - maxGap"
    proof (rule uint_cast_id)
      show "0 \<le> uint (lastReceived s) - maxGap" using True by linarith
      show "uint (lastReceived s) - maxGap < 65536" using assms b by linarith
    qed
    with True show ?thesis
      by (auto simp add: pruneMissingSet_def tooOld_spec_def eraseWhere_def Let_def word_less_alt)
  next
    case False
    have "uint (word_of_int (uint (lastReceived s) - maxGap + 65536) :: quint16) =
            uint (lastReceived s) - maxGap + 65536"
    proof (rule uint_cast_id)
      show "0 \<le> uint (lastReceived s) - maxGap + 65536" using assms nn by linarith
      show "uint (lastReceived s) - maxGap + 65536 < 65536" using False by linarith
    qed
    with False show ?thesis
      by (auto simp add: pruneMissingSet_def tooOld_spec_def eraseWhere_def Let_def word_less_alt
          UINT16_RANGE_def)
  qed
qed

theorem prune_removes_exactly_witness:
  "pruneMissingSet 1000
     \<lparr>lastReceived = 1200, missingSet = {100, 199, 200, 201, 1199, 1201, 65000}, numReceived = 9, numUnreasonable = 0,
      numEarly = 1, numLate = 0, numLost = 7, numRecovered = 0, numDuplicate = 0,
      lastSenderUUID = 7\<rparr> = 
     \<lparr>lastReceived = 1200, missingSet = {200, 201, 1199}, numReceived = 9, numUnreasonable = 0,
      numEarly = 1, numLate = 0, numLost = 7, numRecovered = 0, numDuplicate = 0,
      lastSenderUUID = 7\<rparr>
  \<and> pruneMissingSet 1000
     \<lparr>lastReceived = 200, missingSet = {100, 199, 200, 201, 64735, 64736, 64737, 65000}, numReceived = 9, numUnreasonable = 0,
      numEarly = 1, numLate = 0, numLost = 7, numRecovered = 0, numDuplicate = 0,
      lastSenderUUID = 7\<rparr> = 
     \<lparr>lastReceived = 200, missingSet = {100, 199, 200, 64736, 64737, 65000}, numReceived = 9, numUnreasonable = 0,
      numEarly = 1, numLate = 0, numLost = 7, numRecovered = 0, numDuplicate = 0,
      lastSenderUUID = 7\<rparr>"
  using prune_removes_exactly [of 1000 "\<lparr>lastReceived = 1200, missingSet = {100, 199, 200, 201, 1199, 1201, 65000}, numReceived = 9, numUnreasonable = 0,
      numEarly = 1, numLate = 0, numLost = 7, numRecovered = 0, numDuplicate = 0,
      lastSenderUUID = 7\<rparr>"]
   prune_removes_exactly [of 1000 "\<lparr>lastReceived = 200, missingSet = {100, 199, 200, 201, 64735, 64736, 64737, 65000}, numReceived = 9, numUnreasonable = 0,
      numEarly = 1, numLate = 0, numLost = 7, numRecovered = 0, numDuplicate = 0,
      lastSenderUUID = 7\<rparr>"]
  by (auto simp add: tooOld_spec_def)

section \<open>The invariant of the statistics\<close>

lemma card_insertMissing:
  "card (insertMissing a b S) \<le> card S + nat (b - a)"
proof (induction a b S rule: insertMissing.induct)
  case (1 a b S)
  show ?case
  proof (cases "a < b")
    case True
    let ?x = "word_of_int (if a < 0 then a + UINT16_RANGE else a) :: quint16"
    have "card (insertMissing a b S) = card (insertMissing (a + 1) b (insert ?x S))"
      using True by (subst insertMissing.simps) simp
    also have "\<dots> \<le> card (insert ?x S) + nat (b - (a + 1))"
      using "1.IH" [OF True] .
    also have "\<dots> \<le> (card S + 1) + nat (b - (a + 1))"
      by (simp add: card_insert_if)
    also have "\<dots> = card S + nat (b - a)"
      using True by simp
    finally show ?thesis .
  next
    case False
    then show ?thesis by (subst insertMissing.simps) simp
  qed
qed

lemma card_eraseWhere: "card (eraseWhere P S) \<le> card S"
  unfolding eraseWhere_def by (rule card_mono) auto

lemma pruneMissingSet_fields:
  "numReceived (pruneMissingSet g s) = numReceived s"
  "numUnreasonable (pruneMissingSet g s) = numUnreasonable s"
  "numEarly (pruneMissingSet g s) = numEarly s"
  "numLate (pruneMissingSet g s) = numLate s"
  "numLost (pruneMissingSet g s) = numLost s"
  "numRecovered (pruneMissingSet g s) = numRecovered s"
  "numDuplicate (pruneMissingSet g s) = numDuplicate s"
  "lastReceived (pruneMissingSet g s) = lastReceived s"
  "lastSenderUUID (pruneMissingSet g s) = lastSenderUUID s"
  by (simp_all add: pruneMissingSet_def Let_def)

lemma card_pruneMissingSet:
  "card (missingSet (pruneMissingSet g s)) \<le> card (missingSet s)"
  by (simp add: pruneMissingSet_def Let_def card_eraseWhere)

lemma earlyOrLate_counters:
  "numReceived (earlyOrLate g i a b s) = numReceived s"
  "numUnreasonable (earlyOrLate g i a b s) = numUnreasonable s"
  "numEarly s \<le> numEarly (earlyOrLate g i a b s)"
  "numLate s \<le> numLate (earlyOrLate g i a b s)"
  "numRecovered s \<le> numRecovered (earlyOrLate g i a b s)"
  "numDuplicate s \<le> numDuplicate (earlyOrLate g i a b s)"
  "numLost s - 1 \<le> numLost (earlyOrLate g i a b s)"
  "lastSenderUUID (earlyOrLate g i a b s) = lastSenderUUID s"
  by (simp_all add: earlyOrLate_def Let_def pruneMissingSet_fields)

lemma earlyOrLate_lost:
  assumes "int (card (missingSet s)) \<le> numLost s"
  shows "int (card (missingSet (earlyOrLate g i a b s))) \<le> numLost (earlyOrLate g i a b s)"
proof (cases "a > b")
  case True
  let ?M = "insertMissing b a (missingSet s)"
  have m: "int (card ?M) \<le> numLost s + (a - b)"
    using card_insertMissing [of b a "missingSet s"] assms True by linarith
  have p: "int (card (missingSet (pruneMissingSet g t))) \<le> int (card (missingSet t))" for t
    using card_pruneMissingSet [of g t] by simp
  show ?thesis
    using True m p [of "s\<lparr>numEarly := numEarly s + 1, numLost := numLost s + (a - b),
              lastReceived := i, missingSet := ?M\<rparr>"]
    by (simp add: earlyOrLate_def Let_def pruneMissingSet_fields)
next
  case False
  show ?thesis
  proof (cases "i \<in> missingSet s")
    case True
    then have "card (missingSet s - {i}) = card (missingSet s) - 1" by simp
    moreover have "card (missingSet s) > 0" using True by (auto simp: card_gt_0_iff)
    ultimately show ?thesis using False True assms by (simp add: earlyOrLate_def)
  next
    case nin: False
    then show ?thesis using False assms by (simp add: earlyOrLate_def)
  qed
qed

lemma earlyOrLate_inv: "statsInv s \<Longrightarrow> statsInv (earlyOrLate g i a b s)"
  unfolding statsInv_def
  using earlyOrLate_counters [where g=g and i=i and a=a and b=b and s=s] earlyOrLate_lost [of s g i a b]
  by simp

lemma classify_inv: "statsInv s \<Longrightarrow> statsInv (classify g i s)"
proof -
  assume a: "statsInv s"
  have b: "statsInv (s\<lparr>numReceived := numReceived s + 1\<rparr>)"
    using a by (simp add: statsInv_def)
  have c: "statsInv (s\<lparr>numReceived := numReceived s + 1, lastReceived := i\<rparr>)"
    using a by (simp add: statsInv_def)
  have d: "statsInv (s\<lparr>numReceived := numReceived s + 1, numUnreasonable := numUnreasonable s + 1\<rparr>)"
    using a by (simp add: statsInv_def)
  show ?thesis
    using c d earlyOrLate_inv [OF b]
    by (simp add: classify_def Let_def)
qed

lemma senderCheck_inv: "statsInv s \<Longrightarrow> statsInv (senderCheck u s)"
  by (simp add: senderCheck_def reset_def statsInv_def)

lemma sequenceNumberReceived_inv: "statsInv s \<Longrightarrow> statsInv (sequenceNumberReceived g i u s)"
  by (simp add: sequenceNumberReceived_def classify_inv senderCheck_inv)

lemma receiveAll_inv: "statsInv s \<Longrightarrow> statsInv (receiveAll g s calls)"
  by (induction calls arbitrary: s) (auto simp: sequenceNumberReceived_inv)

lemma new_inv: "statsInv SequenceNumberStats_new"
  by (simp add: statsInv_def SequenceNumberStats_new_def)

lemma classify_counters:
  "numReceived s \<le> numReceived (classify g i s)"
  "numUnreasonable s \<le> numUnreasonable (classify g i s)"
  "numEarly s \<le> numEarly (classify g i s)"
  "numLate s \<le> numLate (classify g i s)"
  "numRecovered s \<le> numRecovered (classify g i s)"
  "numDuplicate s \<le> numDuplicate (classify g i s)"
  "numLost s - 1 \<le> numLost (classify g i s)"
  using earlyOrLate_counters [where g=g and i=i and s="s\<lparr>numReceived := numReceived s + 1\<rparr>"]
  by (simp_all add: classify_def Let_def)

text \<open>
  C10. At every state reached from a freshly constructed tracker by any run of calls, with
  any senders and any value of the gap constant, \<open>numLost\<close> is at least the size of the
  missing set, and so it is never negative.
\<close>

theorem lost_covers_missing:
  "int (card (missingSet (receiveAll maxGap SequenceNumberStats_new calls)))
     \<le> numLost (receiveAll maxGap SequenceNumberStats_new calls)
   \<and> 0 \<le> numLost (receiveAll maxGap SequenceNumberStats_new calls)"
  using receiveAll_inv [OF new_inv, of maxGap calls]
  by (simp add: statsInv_def)


section \<open>The counters over a call\<close>

text \<open>
  C8, as the code has it. Over a call with the stored sender, whatever the state, the
  incoming number and the gap constant, none of \<open>numReceived\<close>, \<open>numUnreasonable\<close>,
  \<open>numEarly\<close>, \<open>numLate\<close>, \<open>numRecovered\<close> and \<open>numDuplicate\<close> decreases, and \<open>numLost\<close>
  decreases by at most one. At every state reached from a freshly constructed tracker
  all seven counters are at least zero.
\<close>

theorem counters_monotone_but_lost:
  "numReceived s \<le> numReceived (sequenceNumberReceived maxGap incoming (lastSenderUUID s) s)
   \<and> numUnreasonable s \<le> numUnreasonable (sequenceNumberReceived maxGap incoming (lastSenderUUID s) s)
   \<and> numEarly s \<le> numEarly (sequenceNumberReceived maxGap incoming (lastSenderUUID s) s)
   \<and> numLate s \<le> numLate (sequenceNumberReceived maxGap incoming (lastSenderUUID s) s)
   \<and> numRecovered s \<le> numRecovered (sequenceNumberReceived maxGap incoming (lastSenderUUID s) s)
   \<and> numDuplicate s \<le> numDuplicate (sequenceNumberReceived maxGap incoming (lastSenderUUID s) s)
   \<and> numLost s - 1 \<le> numLost (sequenceNumberReceived maxGap incoming (lastSenderUUID s) s)
   \<and> 0 \<le> numReceived (receiveAll maxGap SequenceNumberStats_new calls)
   \<and> 0 \<le> numUnreasonable (receiveAll maxGap SequenceNumberStats_new calls)
   \<and> 0 \<le> numEarly (receiveAll maxGap SequenceNumberStats_new calls)
   \<and> 0 \<le> numLate (receiveAll maxGap SequenceNumberStats_new calls)
   \<and> 0 \<le> numLost (receiveAll maxGap SequenceNumberStats_new calls)
   \<and> 0 \<le> numRecovered (receiveAll maxGap SequenceNumberStats_new calls)
   \<and> 0 \<le> numDuplicate (receiveAll maxGap SequenceNumberStats_new calls)"
proof -
  have same: "sequenceNumberReceived maxGap incoming (lastSenderUUID s) s = classify maxGap incoming s"
    by (simp add: sequenceNumberReceived_def senderCheck_def)
  have "statsInv (receiveAll maxGap SequenceNumberStats_new calls)"
    by (rule receiveAll_inv [OF new_inv])
  then have nonneg:
    "0 \<le> numReceived (receiveAll maxGap SequenceNumberStats_new calls)"
    "0 \<le> numUnreasonable (receiveAll maxGap SequenceNumberStats_new calls)"
    "0 \<le> numEarly (receiveAll maxGap SequenceNumberStats_new calls)"
    "0 \<le> numLate (receiveAll maxGap SequenceNumberStats_new calls)"
    "0 \<le> numLost (receiveAll maxGap SequenceNumberStats_new calls)"
    "0 \<le> numRecovered (receiveAll maxGap SequenceNumberStats_new calls)"
    "0 \<le> numDuplicate (receiveAll maxGap SequenceNumberStats_new calls)"
    by (simp_all add: statsInv_def)
  show ?thesis
    unfolding same
    using classify_counters [where g=maxGap and i=incoming and s=s] nonneg
    by simp
qed

text \<open>
  The claim as stated fails for \<open>numLost\<close>: after 1, 2, 5 from sender 7 it is 2, and the late
  arrival of 3 from the same sender brings it down to 1.
\<close>

theorem lost_decreases_counterexample:
  "numLost (receiveAll 1000 SequenceNumberStats_new [(1, 7), (2, 7), (5, 7)]) = 2
   \<and> lastSenderUUID (receiveAll 1000 SequenceNumberStats_new [(1, 7), (2, 7), (5, 7)]) = 7
   \<and> numLost (sequenceNumberReceived 1000 3 7
        (receiveAll 1000 SequenceNumberStats_new [(1, 7), (2, 7), (5, 7)])) = 1"
  by code_simp

section \<open>Scenarios\<close>

lemma first_call:
  "sequenceNumberReceived maxGap n X SequenceNumberStats_new =
     \<lparr>lastReceived = n, missingSet = {}, numReceived = 1, numUnreasonable = 0,
      numEarly = 0, numLate = 0, numLost = 0, numRecovered = 0, numDuplicate = 0,
      lastSenderUUID = X\<rparr>"
  by (simp add: sequenceNumberReceived_def senderCheck_def classify_def reset_def
      SequenceNumberStats_new_def)

lemma second_call_2:
  "sequenceNumberReceived maxGap 2 X
     \<lparr>lastReceived = 1, missingSet = {}, numReceived = 1, numUnreasonable = 0,
      numEarly = 0, numLate = 0, numLost = 0, numRecovered = 0, numDuplicate = 0,
      lastSenderUUID = X\<rparr> =
     \<lparr>lastReceived = 2, missingSet = {}, numReceived = 2, numUnreasonable = 0,
      numEarly = 0, numLate = 0, numLost = 0, numRecovered = 0, numDuplicate = 0,
      lastSenderUUID = X\<rparr>"
  by (simp add: sequenceNumberReceived_def senderCheck_def classify_def)

lemma third_call_5:
  assumes "3 \<le> maxGap" and "maxGap \<le> 65532"
  shows "sequenceNumberReceived maxGap 5 X
     \<lparr>lastReceived = 2, missingSet = {}, numReceived = 2, numUnreasonable = 0,
      numEarly = 0, numLate = 0, numLost = 0, numRecovered = 0, numDuplicate = 0,
      lastSenderUUID = X\<rparr> =
     \<lparr>lastReceived = 5, missingSet = {3, 4}, numReceived = 3, numUnreasonable = 0,
      numEarly = 1, numLate = 0, numLost = 2, numRecovered = 0, numDuplicate = 0,
      lastSenderUUID = X\<rparr>"
  using assms
  by (simp add: sequenceNumberReceived_def senderCheck_def classify_def
      earlyOrLate_def UINT16_RANGE_def insertMissing.simps Let_def insert_commute)

lemma fourth_call_3:
  assumes "3 \<le> maxGap" and "maxGap \<le> 65532"
  shows "sequenceNumberReceived maxGap 3 X
     \<lparr>lastReceived = 5, missingSet = {3, 4}, numReceived = 3, numUnreasonable = 0,
      numEarly = 1, numLate = 0, numLost = 2, numRecovered = 0, numDuplicate = 0,
      lastSenderUUID = X\<rparr> =
     \<lparr>lastReceived = 5, missingSet = {4}, numReceived = 4, numUnreasonable = 0,
      numEarly = 1, numLate = 1, numLost = 1, numRecovered = 1, numDuplicate = 0,
      lastSenderUUID = X\<rparr>"
  using assms
  by (simp add: sequenceNumberReceived_def senderCheck_def classify_def
      earlyOrLate_def UINT16_RANGE_def Let_def)

lemma fifth_call_3:
  assumes "3 \<le> maxGap" and "maxGap \<le> 65532"
  shows "sequenceNumberReceived maxGap 3 X
     \<lparr>lastReceived = 5, missingSet = {4}, numReceived = 4, numUnreasonable = 0,
      numEarly = 1, numLate = 1, numLost = 1, numRecovered = 1, numDuplicate = 0,
      lastSenderUUID = X\<rparr> =
     \<lparr>lastReceived = 5, missingSet = {4}, numReceived = 5, numUnreasonable = 0,
      numEarly = 1, numLate = 2, numLost = 1, numRecovered = 1, numDuplicate = 1,
      lastSenderUUID = X\<rparr>"
  using assms
  by (simp add: sequenceNumberReceived_def senderCheck_def classify_def
      earlyOrLate_def UINT16_RANGE_def Let_def)

text \<open>
  C1. With the gap constant between 3 and 65532 and any one sender, a freshly constructed
  tracker that receives 1, 2, 5 has \<open>numReceived = 3\<close>, \<open>numEarly = 1\<close>, \<open>numLost = 2\<close>, the
  missing set \<open>{3, 4}\<close> and \<open>lastReceived = 5\<close>; after 3 it has \<open>numLate = 1\<close>,
  \<open>numRecovered = 1\<close>, \<open>numLost = 1\<close> and the missing set \<open>{4}\<close>; after 3 again it has
  \<open>numDuplicate = 1\<close>, \<open>numRecovered\<close> still 1, and 3 is not back in the missing set.
\<close>

theorem scenario_1_2_5_3_3:
  assumes "3 \<le> maxGap" and "maxGap \<le> 65532"
  shows "receiveAll maxGap SequenceNumberStats_new [(1, X), (2, X), (5, X)] =
           \<lparr>lastReceived = 5, missingSet = {3, 4}, numReceived = 3, numUnreasonable = 0,
            numEarly = 1, numLate = 0, numLost = 2, numRecovered = 0, numDuplicate = 0,
            lastSenderUUID = X\<rparr>
       \<and> receiveAll maxGap SequenceNumberStats_new [(1, X), (2, X), (5, X), (3, X)] =
           \<lparr>lastReceived = 5, missingSet = {4}, numReceived = 4, numUnreasonable = 0,
            numEarly = 1, numLate = 1, numLost = 1, numRecovered = 1, numDuplicate = 0,
            lastSenderUUID = X\<rparr>
       \<and> receiveAll maxGap SequenceNumberStats_new [(1, X), (2, X), (5, X), (3, X), (3, X)] =
           \<lparr>lastReceived = 5, missingSet = {4}, numReceived = 5, numUnreasonable = 0,
            numEarly = 1, numLate = 2, numLost = 1, numRecovered = 1, numDuplicate = 1,
            lastSenderUUID = X\<rparr>"
  by (simp add: first_call second_call_2 third_call_5 [OF assms] fourth_call_3 [OF assms]
      fifth_call_3 [OF assms])

theorem scenario_1_2_5_3_3_witness:
  "receiveAll 1000 SequenceNumberStats_new [(1, 7), (2, 7), (5, 7)] =
           \<lparr>lastReceived = 5, missingSet = {3, 4}, numReceived = 3, numUnreasonable = 0,
            numEarly = 1, numLate = 0, numLost = 2, numRecovered = 0, numDuplicate = 0,
            lastSenderUUID = 7\<rparr>
       \<and> receiveAll 1000 SequenceNumberStats_new [(1, 7), (2, 7), (5, 7), (3, 7)] =
           \<lparr>lastReceived = 5, missingSet = {4}, numReceived = 4, numUnreasonable = 0,
            numEarly = 1, numLate = 1, numLost = 1, numRecovered = 1, numDuplicate = 0,
            lastSenderUUID = 7\<rparr>
       \<and> receiveAll 1000 SequenceNumberStats_new [(1, 7), (2, 7), (5, 7), (3, 7), (3, 7)] =
           \<lparr>lastReceived = 5, missingSet = {4}, numReceived = 5, numUnreasonable = 0,
            numEarly = 1, numLate = 2, numLost = 1, numRecovered = 1, numDuplicate = 1,
            lastSenderUUID = 7\<rparr>"
  by (rule scenario_1_2_5_3_3) simp_all

lemma second_call_rollover:
  assumes "3 \<le> maxGap" and "maxGap \<le> 65532"
  shows "sequenceNumberReceived maxGap 3 X
     \<lparr>lastReceived = 65535, missingSet = {}, numReceived = 1, numUnreasonable = 0,
      numEarly = 0, numLate = 0, numLost = 0, numRecovered = 0, numDuplicate = 0,
      lastSenderUUID = X\<rparr> =
     \<lparr>lastReceived = 3, missingSet = {0, 1, 2}, numReceived = 2, numUnreasonable = 0,
      numEarly = 1, numLate = 0, numLost = 3, numRecovered = 0, numDuplicate = 0,
      lastSenderUUID = X\<rparr>"
  using assms
  by (simp add: sequenceNumberReceived_def senderCheck_def classify_def
      earlyOrLate_def UINT16_RANGE_def insertMissing.simps Let_def insert_commute)

text \<open>
  C4, as the code has it. With the gap constant between 3 and 65532 and any one sender, a
  freshly constructed tracker that receives 65535 and then 3 counts the second packet as
  early: \<open>numUnreasonable\<close> stays 0, \<open>numLost\<close> becomes 3, the missing set becomes
  \<open>{0, 1, 2}\<close> and \<open>lastReceived\<close> becomes 3.
\<close>

theorem rollover_early:
  assumes "3 \<le> maxGap" and "maxGap \<le> 65532"
  shows "receiveAll maxGap SequenceNumberStats_new [(65535, X), (3, X)] =
           \<lparr>lastReceived = 3, missingSet = {0, 1, 2}, numReceived = 2, numUnreasonable = 0,
            numEarly = 1, numLate = 0, numLost = 3, numRecovered = 0, numDuplicate = 0,
            lastSenderUUID = X\<rparr>"
  by (simp add: first_call second_call_rollover [OF assms])

theorem rollover_early_witness:
  "receiveAll 1000 SequenceNumberStats_new [(65535, 7), (3, 7)] =
           \<lparr>lastReceived = 3, missingSet = {0, 1, 2}, numReceived = 2, numUnreasonable = 0,
            numEarly = 1, numLate = 0, numLost = 3, numRecovered = 0, numDuplicate = 0,
            lastSenderUUID = 7\<rparr>"
  by (rule rollover_early) simp_all

text \<open>
  The claim as stated, for every gap constant from 3 on, fails at 65533: the distance 3
  between the incoming 3 and the expected 0 then reaches the threshold \<open>65536 - 65533\<close> of
  the rollover correction, the incoming number is moved down by 65536, and the packet is
  counted as late and as a duplicate; nothing is counted as lost.
\<close>

theorem rollover_counterexample:
  "(3 :: int) \<le> 65533
   \<and> receiveAll 65533 SequenceNumberStats_new [(65535, 7), (3, 7)] =
           \<lparr>lastReceived = 65535, missingSet = {}, numReceived = 2, numUnreasonable = 0,
            numEarly = 0, numLate = 1, numLost = 0, numRecovered = 0, numDuplicate = 1,
            lastSenderUUID = 7\<rparr>"
  by code_simp

section \<open>The ring of sent packets\<close>

lemma mod_succ_int:
  fixes N C :: int
  assumes "0 < C"
  shows "(N + 1) mod C = (if N mod C = C - 1 then 0 else N mod C + 1)"
proof -
  have r: "0 \<le> N mod C" "N mod C < C" using assms by simp_all
  have e: "(N + 1) mod C = (N mod C + 1) mod C" by (simp add: mod_add_left_eq)
  show ?thesis
  proof (cases "N mod C = C - 1")
    case True
    then show ?thesis using e by simp
  next
    case False
    then have "N mod C + 1 < C" using r by linarith
    then show ?thesis using e r False by simp
  qed
qed

lemma wrap_back:
  fixes m d C :: int
  assumes "0 \<le> m" "m < C" "0 \<le> d" "d < C"
  shows "(if m - d < 0 then m - d + C else m - d) = (m - d) mod C"
proof (cases "m - d < 0")
  case True
  then have "0 \<le> m - d + C" "m - d + C < C" using assms by linarith+
  then have a: "(m - d + C) mod C = m - d + C" by (rule mod_pos_pos_trivial)
  have b: "(m - d + C) mod C = (m - d) mod C" by simp
  have "(m - d) mod C = m - d + C" using a b by (simp only:)
  then show ?thesis using True by simp
next
  case False
  then have "(m - d) mod C = m - d" using assms by simp
  then show ?thesis using False by simp
qed

lemma packetsSent_snoc:
  "packetsSent h (calls @ [(n, p)]) =
     (case packetsSent h calls of Inl e \<Rightarrow> Inl e | Inr h' \<Rightarrow> packetSent n p h')"
proof (induction calls arbitrary: h)
  case Nil
  show ?case by (simp split: sum.splits)
next
  case (Cons c calls)
  obtain m q where c: "c = (m, q)" by (cases c)
  show ?case using Cons.IH by (simp add: c split: sum.splits)
qed

lemma numbered_snoc:
  "numbered first (ps @ [p]) = numbered first ps @ [(first + of_nat (length ps), p)]"
  by (induction ps arbitrary: first) (simp_all add: algebra_simps)

lemma packetSent_ringInv:
  assumes inv: "ringInv C ps h" and C: "0 < C"
  shows "\<exists>h'. packetSent n p h = Inr h' \<and> ringInv C (ps @ [p]) h' \<and> newestSequenceNumber h' = n"
proof -
  let ?N = "int (length ps)"
  let ?at = "(?N + 1) mod C"
  from inv have len: "int (length (sentPackets h)) = C"
    and at: "newestPacketAt h = ?N mod C"
    and cnt: "numExistingPackets h = min ?N C"
    and slots: "\<And>j. j < length ps \<Longrightarrow> int j < C \<Longrightarrow>
        sentPackets h ! nat ((?N - int j) mod C) = ps ! (length ps - 1 - j)"
    by (simp_all add: ringInv_def)
  have at': "(if newestPacketAt h = C - 1 then 0 else newestPacketAt h + 1) = ?at"
    using mod_succ_int [OF C, of ?N] at by simp
  have r: "0 \<le> ?at" "?at < C" using C by simp_all
  let ?h' = "h\<lparr>newestSequenceNumber := n, newestPacketAt := ?at,
               sentPackets := (sentPackets h)[nat ?at := p],
               numExistingPackets := (if numExistingPackets h < C then numExistingPackets h + 1
                                      else numExistingPackets h)\<rparr>"
  have step: "packetSent n p h = Inr ?h'"
    using r at' by (simp add: packetSent_def Let_def len)
  have cnt': "numExistingPackets ?h' = min (?N + 1) C"
    using cnt by simp
  have slots': "sentPackets ?h' ! nat ((?N + 1 - int j) mod C) = (ps @ [p]) ! (length ps - j)"
    if j: "j < length ps + 1" "int j < C" for j
  proof (cases j)
    case 0
    have "nat ?at < length (sentPackets h)" using r len by linarith
    then show ?thesis using 0 by simp
  next
    case (Suc i)
    have i: "i < length ps" "int i < C" using j Suc by simp_all
    have e2: "?N + 1 - int j = ?N - int i" using Suc by simp
    have ne: "(?N - int i) mod C \<noteq> ?at"
    proof
      assume "(?N - int i) mod C = ?at"
      then have "C dvd (?N - int i) - (?N + 1)"
        by (simp add: mod_eq_dvd_iff)
      moreover have "(?N - int i) - (?N + 1) = - int j" using Suc by simp
      ultimately have "C dvd - int j" by (simp only:)
      then have "C dvd int j" by (simp only: dvd_minus_iff)
      then have "C \<le> int j" using Suc by (intro zdvd_imp_le) simp_all
      then show False using j by simp
    qed
    have nn: "0 \<le> (?N - int i) mod C" using C by simp
    have "nat ((?N - int i) mod C) \<noteq> nat ?at" using ne nn r by linarith
    then have e1: "sentPackets ?h' ! nat ((?N - int i) mod C) =
               sentPackets h ! nat ((?N - int i) mod C)" by simp
    have e3: "sentPackets h ! nat ((?N - int i) mod C) = ps ! (length ps - 1 - i)"
      using slots [OF i] .
    have e4: "ps ! (length ps - 1 - i) = (ps @ [p]) ! (length ps - j)"
    proof -
      have "length ps - j < length ps" using Suc i by linarith
      then have "(ps @ [p]) ! (length ps - j) = ps ! (length ps - j)"
        by (simp add: nth_append)
      moreover have "length ps - 1 - i = length ps - j" using Suc by simp
      ultimately show ?thesis by simp
    qed
    show ?thesis unfolding e2 using e1 e3 e4 by (simp only:)
  qed
  have "ringInv C (ps @ [p]) ?h'"
    unfolding ringInv_def
  proof (intro conjI allI impI)
    show "int (length (sentPackets ?h')) = C" using len by simp
    show "newestPacketAt ?h' = int (length (ps @ [p])) mod C" by (simp add: add.commute)
    show "numExistingPackets ?h' = min (int (length (ps @ [p]))) C" using cnt' by (simp add: add.commute)
    fix j assume "j < length (ps @ [p]) \<and> int j < C"
    then have "j < length ps + 1" "int j < C" by simp_all
    from slots' [OF this]
    show "sentPackets ?h' ! nat ((int (length (ps @ [p])) - int j) mod C) =
          (ps @ [p]) ! (length (ps @ [p]) - 1 - j)"
      by (simp add: add.commute)
  qed
  then show ?thesis using step by simp
qed

lemma seqDiff_ringDistance:
  fixes a b :: quint16
  shows "(if uint a - uint b < 0 then uint a - uint b + UINT16_RANGE else uint a - uint b) =
           ringDistance_spec a b"
  by (simp add: ringDistance_spec_def UINT16_RANGE_def uint_sub_if')

lemma getPacket_distance:
  "getPacket sequenceNumber h =
     (if ringDistance_spec (newestSequenceNumber h) sequenceNumber \<ge> numExistingPackets h
      then Inr None
      else
        let vsize = int (length (sentPackets h));
            packetAt0 =
              newestPacketAt h - ringDistance_spec (newestSequenceNumber h) sequenceNumber;
            packetAt = (if packetAt0 < 0 then packetAt0 + vsize else packetAt0)
        in if 0 \<le> packetAt \<and> packetAt < vsize
           then Inr (Some (sentPackets h ! nat packetAt))
           else Inl IndexOutOfRange)"
  by (simp only: getPacket_def Let_def seqDiff_ringDistance)

lemma getPacket_inside:
  assumes "0 \<le> newestPacketAt h"
    and "newestPacketAt h < int (length (sentPackets h))"
    and "numExistingPackets h \<le> int (length (sentPackets h))"
    and "ringDistance_spec (newestSequenceNumber h) sequenceNumber < numExistingPackets h"
  shows "getPacket sequenceNumber h =
           Inr (Some (sentPackets h !
                  slotBack_spec h (ringDistance_spec (newestSequenceNumber h) sequenceNumber)))"
proof -
  let ?d = "ringDistance_spec (newestSequenceNumber h) sequenceNumber"
  let ?C = "int (length (sentPackets h))"
  have d0: "0 \<le> ?d" by (simp add: ringDistance_spec_def)
  have dC: "?d < ?C" using assms by linarith
  have C: "0 < ?C" using assms by linarith
  have w: "(if newestPacketAt h - ?d < 0 then newestPacketAt h - ?d + ?C
            else newestPacketAt h - ?d) = (newestPacketAt h - ?d) mod ?C"
    using wrap_back [OF assms(1) assms(2) d0 dC] .
  have r: "0 \<le> (newestPacketAt h - ?d) mod ?C" "(newestPacketAt h - ?d) mod ?C < ?C"
    using C by simp_all
  have nd: "\<not> (?d \<ge> numExistingPackets h)" using assms by simp
  show ?thesis
    unfolding getPacket_distance Let_def w
    using nd r by (simp add: slotBack_spec_def)
qed

lemma historyAfter_snoc:
  "historyAfter C (calls @ [(n, p)]) =
     (case historyAfter C calls of Inl e \<Rightarrow> Inl e | Inr h \<Rightarrow> packetSent n p h)"
  by (simp add: historyAfter_def packetsSent_snoc split: sum.splits)


lemma new_ringInv:
  assumes "0 < C"
  shows "\<exists>h. SentPacketHistory_new C = Inr h \<and> ringInv C [] h \<and> newestSequenceNumber h = 65535"
  using assms by (simp add: SentPacketHistory_new_def ringInv_def)

lemma historyAfter_ringInv:
  assumes C: "0 < C"
  shows "\<exists>h. historyAfter C (numbered first ps) = Inr h \<and> ringInv C ps h \<and>
             newestSequenceNumber h =
               (if ps = [] then 65535 else first + of_nat (length ps - 1))"
proof (induction ps rule: rev_induct)
  case Nil
  show ?case using new_ringInv [OF C] by (auto simp add: historyAfter_def)
next
  case (snoc p ps)
  then obtain h where h: "historyAfter C (numbered first ps) = Inr h" and inv: "ringInv C ps h"
    by blast
  obtain h' where h': "packetSent (first + of_nat (length ps)) p h = Inr h'"
      and inv': "ringInv C (ps @ [p]) h'"
      and n': "newestSequenceNumber h' = first + of_nat (length ps)"
    using packetSent_ringInv [OF inv C] by blast
  have "historyAfter C (numbered first (ps @ [p])) = Inr h'"
    using h h' by (simp add: numbered_snoc historyAfter_snoc)
  then show ?case using inv' n' by simp
qed

lemma getPacket_ringInv:
  assumes inv: "ringInv C ps h" and C: "0 < C"
  shows "getPacket (newestSequenceNumber h - k) h =
           Inr (if uint k < numExistingPackets h
                then Some (ps ! (length ps - 1 - unat k)) else None)"
proof -
  let ?N = "int (length ps)"
  from inv have len: "int (length (sentPackets h)) = C"
    and at: "newestPacketAt h = ?N mod C"
    and cnt: "numExistingPackets h = min ?N C"
    and slots: "\<And>j. j < length ps \<Longrightarrow> int j < C \<Longrightarrow>
        sentPackets h ! nat ((?N - int j) mod C) = ps ! (length ps - 1 - j)"
    by (simp_all add: ringInv_def)
  have d: "ringDistance_spec (newestSequenceNumber h) (newestSequenceNumber h - k) = uint k"
    by (simp add: ringDistance_spec_def)
  show ?thesis
  proof (cases "uint k < numExistingPackets h")
    case False
    then show ?thesis by (simp add: getPacket_distance d)
  next
    case True
    then have k: "uint k < ?N" "uint k < C" using cnt by simp_all
    have k0: "0 \<le> uint k" by simp
    have m: "0 \<le> ?N mod C" "?N mod C < C" using C by simp_all
    have ik: "int (unat k) = uint k" by simp
    have j: "unat k < length ps" "int (unat k) < C" using k ik by linarith+
    have s: "sentPackets h ! nat ((?N - uint k) mod C) = ps ! (length ps - 1 - unat k)"
      using slots [OF j] by (simp only: ik)
    have "getPacket (newestSequenceNumber h - k) h =
            Inr (Some (sentPackets h ! slotBack_spec h (uint k)))"
      using getPacket_inside [of h "newestSequenceNumber h - k"] m True C
      by (simp add: d len at cnt)
    moreover have "slotBack_spec h (uint k) = nat ((?N - uint k) mod C)"
      by (simp add: slotBack_spec_def len at mod_diff_left_eq)
    ultimately show ?thesis using True s by simp
  qed
qed

lemma packetSent_historyWf:
  "packetSent n p h = Inr h' \<Longrightarrow> historyWf h \<Longrightarrow> historyWf h'"
  by (auto simp add: packetSent_def historyWf_def Let_def split: if_splits)

lemma packetsSent_historyWf:
  "packetsSent h calls = Inr h' \<Longrightarrow> historyWf h \<Longrightarrow> historyWf h'"
proof (induction calls arbitrary: h)
  case Nil
  then show ?case by simp
next
  case (Cons c calls)
  obtain n p where c: "c = (n, p)" by (cases c)
  from Cons.prems obtain h1 where h1: "packetSent n p h = Inr h1"
      and rest: "packetsSent h1 calls = Inr h'"
    by (auto simp add: c split: sum.splits)
  show ?case
    using Cons.IH [OF rest] packetSent_historyWf [OF h1 Cons.prems(2)] .
qed

lemma historyAfter_historyWf:
  assumes "historyAfter C calls = Inr h"
  shows "historyWf h"
proof -
  from assms obtain h0 where new: "SentPacketHistory_new C = Inr h0"
      and run: "packetsSent h0 calls = Inr h"
    by (auto simp add: historyAfter_def split: sum.splits)
  have "historyWf h0"
    using new by (auto simp add: SentPacketHistory_new_def historyWf_def split: if_splits)
  then show ?thesis using packetsSent_historyWf [OF run] by simp
qed

section \<open>Looking a packet up\<close>

text \<open>
  C9, as the code has it. At every state of a history, of any capacity and after any run
  of \<open>packetSent\<close> calls, a call of \<open>getPacket\<close> whose ring distance from the newest
  sequence number is less than the count returns the payload stored at the ring slot that
  many steps, the ring distance, back from the newest slot, wrapping to the top of the
  ring when the index goes negative.
\<close>

theorem getPacket_slot_by_distance:
  assumes "historyAfter C calls = Inr h"
    and "ringDistance_spec (newestSequenceNumber h) sequenceNumber < numExistingPackets h"
  shows "getPacket sequenceNumber h =
           Inr (Some (sentPackets h !
                  slotBack_spec h (ringDistance_spec (newestSequenceNumber h) sequenceNumber)))"
proof -
  have wf: "historyWf h" using assms(1) by (rule historyAfter_historyWf)
  have "0 \<le> ringDistance_spec (newestSequenceNumber h) sequenceNumber"
    by (simp add: ringDistance_spec_def)
  then have "numExistingPackets h \<noteq> 0" using assms(2) by linarith
  then have "0 \<le> newestPacketAt h" "newestPacketAt h < int (length (sentPackets h))"
    "numExistingPackets h \<le> int (length (sentPackets h))"
    using wf by (simp_all add: historyWf_def)
  then show ?thesis using assms(2) by (rule getPacket_inside)
qed

lemma history_a_b:
  "historyAfter 3 [(1, ''a''), (2, ''b'')] =
     Inr \<lparr>sentPackets = ['''', ''a'', ''b''], newestPacketAt = 2, numExistingPackets = 2,
          newestSequenceNumber = 2\<rparr>"
  by code_simp

theorem getPacket_slot_by_distance_witness:
  "getPacket 1 \<lparr>sentPackets = ['''', ''a'', ''b''], newestPacketAt = 2,
                numExistingPackets = 2, newestSequenceNumber = 2\<rparr> = Inr (Some ''a'')"
proof -
  let ?h = "\<lparr>sentPackets = ['''', ''a'', ''b''], newestPacketAt = 2,
             numExistingPackets = 2, newestSequenceNumber = 2\<rparr>"
  have d: "ringDistance_spec 2 1 = 1"
    by (simp add: ringDistance_spec_def)
  have "getPacket 1 ?h = Inr (Some (sentPackets ?h ! slotBack_spec ?h
           (ringDistance_spec (newestSequenceNumber ?h) 1)))"
    by (rule getPacket_slot_by_distance [OF history_a_b]) (simp add: d)
  then show ?thesis by (simp add: d slotBack_spec_def)
qed

text \<open>
  The claim as stated, with the slot \<open>count\<close> steps back, fails: in a history of capacity 3
  after \<open>packetSent(1, "a")\<close> and \<open>packetSent(2, "b")\<close> the count is 2 and \<open>getPacket(2)\<close>
  returns \<open>"b"\<close>, from the newest slot itself, while the slot two steps back is slot 0,
  which still holds the empty byte array the vector was created with.
\<close>

theorem getPacket_count_steps_counterexample:
  "historyAfter 3 [(1, ''a''), (2, ''b'')] =
     Inr \<lparr>sentPackets = ['''', ''a'', ''b''], newestPacketAt = 2, numExistingPackets = 2,
          newestSequenceNumber = 2\<rparr>
   \<and> ringDistance_spec 2 2 < (2 :: int)
   \<and> getPacket 2 \<lparr>sentPackets = ['''', ''a'', ''b''], newestPacketAt = 2,
                   numExistingPackets = 2, newestSequenceNumber = 2\<rparr> = Inr (Some ''b'')
   \<and> ['''', ''a'', ''b''] !
       slotBack_spec \<lparr>sentPackets = ['''', ''a'', ''b''], newestPacketAt = 2,
                      numExistingPackets = 2, newestSequenceNumber = 2\<rparr> 2 = ''''"
  by code_simp

section \<open>Consecutive sequence numbers\<close>

lemma history_a_b_c_d:
  "historyAfter 3 [(1, ''a''), (2, ''b''), (3, ''c''), (4, ''d'')] =
     Inr \<lparr>sentPackets = [''c'', ''d'', ''b''], newestPacketAt = 1, numExistingPackets = 3,
          newestSequenceNumber = 4\<rparr>
   \<and> getPacket 1 \<lparr>sentPackets = [''c'', ''d'', ''b''], newestPacketAt = 1,
                   numExistingPackets = 3, newestSequenceNumber = 4\<rparr> = Inr None
   \<and> getPacket 4 \<lparr>sentPackets = [''c'', ''d'', ''b''], newestPacketAt = 1,
                   numExistingPackets = 3, newestSequenceNumber = 4\<rparr> = Inr (Some ''d'')
   \<and> getPacket 2 \<lparr>sentPackets = [''c'', ''d'', ''b''], newestPacketAt = 1,
                   numExistingPackets = 3, newestSequenceNumber = 4\<rparr> = Inr (Some ''b'')"
  by code_simp

text \<open>
  C2. In a history of any capacity \<open>C > 0\<close>, after any number of \<open>packetSent\<close> calls whose
  sequence numbers are consecutive from any first number, every call succeeds, the count
  is the number of calls capped at \<open>C\<close>, and for every 16-bit \<open>k\<close> the lookup of the newest
  sequence number minus \<open>k\<close> returns the payload recorded \<open>k\<close> calls before the last one
  when \<open>k\<close> is less than the count, and nothing otherwise. With capacity 3, after
  \<open>(1, "a")\<close>, \<open>(2, "b")\<close>, \<open>(3, "c")\<close>, \<open>(4, "d")\<close>, \<open>getPacket(1)\<close> returns nothing,
  \<open>getPacket(4)\<close> returns \<open>"d"\<close> and \<open>getPacket(2)\<close> returns \<open>"b"\<close>.
\<close>

theorem consecutive_history_lookup:
  assumes "0 < C"
  shows "(\<exists>h. historyAfter C (numbered first ps) = Inr h
           \<and> numExistingPackets h = min (int (length ps)) C
           \<and> (ps \<noteq> [] \<longrightarrow> newestSequenceNumber h = first + of_nat (length ps - 1))
           \<and> (\<forall>k. getPacket (newestSequenceNumber h - k) h =
                    Inr (if uint k < numExistingPackets h
                         then Some (ps ! (length ps - 1 - unat k)) else None)))
       \<and> (historyAfter 3 [(1, ''a''), (2, ''b''), (3, ''c''), (4, ''d'')] =
            Inr \<lparr>sentPackets = [''c'', ''d'', ''b''], newestPacketAt = 1,
                 numExistingPackets = 3, newestSequenceNumber = 4\<rparr>
          \<and> getPacket 1 \<lparr>sentPackets = [''c'', ''d'', ''b''], newestPacketAt = 1,
                 numExistingPackets = 3, newestSequenceNumber = 4\<rparr> = Inr None
          \<and> getPacket 4 \<lparr>sentPackets = [''c'', ''d'', ''b''], newestPacketAt = 1,
                 numExistingPackets = 3, newestSequenceNumber = 4\<rparr> = Inr (Some ''d'')
          \<and> getPacket 2 \<lparr>sentPackets = [''c'', ''d'', ''b''], newestPacketAt = 1,
                 numExistingPackets = 3, newestSequenceNumber = 4\<rparr> = Inr (Some ''b''))"
proof -
  obtain h where h: "historyAfter C (numbered first ps) = Inr h" and inv: "ringInv C ps h"
      and n: "newestSequenceNumber h =
                (if ps = [] then 65535 else first + of_nat (length ps - 1))"
    using historyAfter_ringInv [OF assms, of first ps] by blast
  have "numExistingPackets h = min (int (length ps)) C" using inv by (simp add: ringInv_def)
  moreover have "\<forall>k. getPacket (newestSequenceNumber h - k) h =
                    Inr (if uint k < numExistingPackets h
                         then Some (ps ! (length ps - 1 - unat k)) else None)"
    using getPacket_ringInv [OF inv assms] by blast
  ultimately have "\<exists>h. historyAfter C (numbered first ps) = Inr h
           \<and> numExistingPackets h = min (int (length ps)) C
           \<and> (ps \<noteq> [] \<longrightarrow> newestSequenceNumber h = first + of_nat (length ps - 1))
           \<and> (\<forall>k. getPacket (newestSequenceNumber h - k) h =
                    Inr (if uint k < numExistingPackets h
                         then Some (ps ! (length ps - 1 - unat k)) else None))"
    using h n by auto
  then show ?thesis using history_a_b_c_d by blast
qed

theorem consecutive_history_lookup_witness:
  "\<exists>h. historyAfter 3 (numbered 1 [''a'', ''b'', ''c'', ''d'']) = Inr h
      \<and> numExistingPackets h = 3
      \<and> newestSequenceNumber h = 4
      \<and> getPacket (4 - 3) h = Inr None
      \<and> getPacket (4 - 0) h = Inr (Some ''d'')
      \<and> getPacket (4 - 2) h = Inr (Some ''b'')"
proof -
  let ?ps = "[''a'', ''b'', ''c'', ''d'']"
  have "(0 :: int) < 3" by simp
  from consecutive_history_lookup [OF this, of 1 ?ps]
  obtain h where h: "historyAfter 3 (numbered 1 ?ps) = Inr h"
      and cnt: "numExistingPackets h = min (int (length ?ps)) 3"
      and n: "?ps \<noteq> [] \<longrightarrow> newestSequenceNumber h = 1 + of_nat (length ?ps - 1)"
      and look: "\<forall>k. getPacket (newestSequenceNumber h - k) h =
                    Inr (if uint k < numExistingPackets h
                         then Some (?ps ! (length ?ps - 1 - unat k)) else None)"
    by blast
  have cnt3: "numExistingPackets h = 3" using cnt by simp
  have n4: "newestSequenceNumber h = 4" using n by simp
  have l3: "getPacket (4 - 3) h = Inr None" using look [rule_format, of 3] by (simp add: cnt3 n4)
  have l0: "getPacket (4 - 0) h = Inr (Some ''d'')"
    using look [rule_format, of 0] by (simp add: cnt3 n4)
  have l2: "getPacket (4 - 2) h = Inr (Some ''b'')"
    using look [rule_format, of 2] by (simp add: cnt3 n4)
  show ?thesis using h cnt3 n4 l3 l0 l2 by blast
qed

end
